theory Spec2Isabelle
  imports Main "HOL-Library.Word" "HOL-Library.Sublist"
begin

section \<open>The Go library functions used by the package\<close>

text \<open>
  Go strings are byte sequences; they are modelled as \<open>string\<close>, a list of 8-bit
  characters. The package calls \<open>path.Clean\<close>, \<open>path.Split\<close> and
  \<open>strings.Contains\<close> of the Go standard library. They are embedded here after the
  library's own code, since what \<open>splitPaths\<close> and \<open>New\<close> compute depends on them.
\<close>

subsection \<open>strings.Contains\<close>

text \<open>
  \<open>strings.Contains(s, substr)\<close> reports whether \<open>substr\<close> occurs in \<open>s\<close>, that is
  whether \<open>substr\<close> is a prefix of some suffix of \<open>s\<close>.
\<close>

fun strings_Contains :: "string \<Rightarrow> string \<Rightarrow> bool" where
  "strings_Contains [] substr = (substr = [])"
| "strings_Contains (c # cs) substr = (prefix substr (c # cs) \<or> strings_Contains cs substr)"

subsection \<open>time.Duration\<close>

text \<open>
  A \<open>time.Duration\<close> is an \<open>int64\<close> count of nanoseconds, read with \<open>sint\<close>.
\<close>

type_synonym Duration = "64 word"

definition time_Second :: Duration where
  "time_Second = 1000000000"

subsection \<open>path.Clean\<close>

text \<open>
  \<open>path.Clean\<close> reads the path at index \<open>r\<close> and writes to a buffer of which the
  first \<open>w\<close> bytes are valid. The model keeps the unread suffix \<open>drop r path\<close> and the
  valid part of the buffer as lists, so \<open>out.w\<close> is \<open>length out\<close>. (The library's
  \<open>lazybuf\<close> only delays the allocation of the buffer; \<open>out.index i\<close> is byte \<open>i\<close> of
  the valid part.)

  The backtracking of a \<open>..\<close> element:
  \<^verbatim>\<open>
  out.w--
  for out.w > dotdot && out.index(out.w) != '/' { out.w-- }
  \<close>
  \<open>backtrack\<close> is the inner loop, started at \<open>out.w - 1\<close>; it returns the new \<open>out.w\<close>.
\<close>

fun backtrack :: "string \<Rightarrow> nat \<Rightarrow> nat \<Rightarrow> nat" where
  "backtrack buf dotdot w =
     (if w > dotdot \<and> buf ! w \<noteq> CHR ''/'' then backtrack buf dotdot (w - 1) else w)"

declare backtrack.simps [simp del]

text \<open>
  The main loop \<open>for r < n { switch { ... } }\<close>, with the four cases of the switch in
  the order of the library: an empty element, a \<open>.\<close> element, a \<open>..\<close> element, and a
  real element, which is copied up to the next separator. The third case reads
  \<open>path[r+1]\<close> without a bound check, as the library does: where it is reached with
  \<open>path[r] == '.'\<close> the second case has failed, so \<open>r+1 < n\<close>.
\<close>

function clean_loop :: "bool \<Rightarrow> string \<Rightarrow> string \<Rightarrow> nat \<Rightarrow> string" where
  "clean_loop rooted [] out dotdot = out"
| "clean_loop rooted (c # cs) out dotdot =
     (if c = CHR ''/'' then clean_loop rooted cs out dotdot
      else if c = CHR ''.'' \<and> (cs = [] \<or> hd cs = CHR ''/'') then
        clean_loop rooted cs out dotdot
      else if c = CHR ''.'' \<and> hd cs = CHR ''.'' \<and> (tl cs = [] \<or> hd (tl cs) = CHR ''/'') then
        (if length out > dotdot then
           clean_loop rooted (tl cs) (take (backtrack out dotdot (length out - 1)) out) dotdot
         else if \<not> rooted then
           (let out' = (if length out > 0 then out @ ''/'' else out) @ ''..''
            in clean_loop rooted (tl cs) out' (length out'))
         else clean_loop rooted (tl cs) out dotdot)
      else
        (let out' = (if rooted \<and> length out \<noteq> 1 \<or> \<not> rooted \<and> length out \<noteq> 0
                     then out @ ''/'' else out)
         in clean_loop rooted (dropWhile (\<lambda>x. x \<noteq> CHR ''/'') (c # cs))
              (out' @ takeWhile (\<lambda>x. x \<noteq> CHR ''/'') (c # cs)) dotdot))"
  by pat_completeness auto
termination
  by (relation "measure (\<lambda>(rooted, rest, out, dotdot). length rest)")
     (auto intro: le_imp_less_Suc length_dropWhile_le)

declare clean_loop.simps(2) [simp del]

definition path_Clean :: "string \<Rightarrow> string" where
  "path_Clean path =
     (if path = [] then ''.''
      else let rooted = (hd path = CHR ''/'');
               out = (if rooted then clean_loop True (tl path) ''/'' 1
                      else clean_loop False path [] 0)
           in if length out = 0 then ''.'' else out)"

subsection \<open>path.Split\<close>

text \<open>
  \<^verbatim>\<open>
  func Split(path string) (dir, file string) {
      i := bytealg.LastIndexByteString(path, '/')
      return path[:i+1], path[i+1:]
  }
  \<close>
  \<open>LastIndexByteString\<close> scans from the last byte down and returns \<open>-1\<close> when the byte
  does not occur. The scan is modelled with the counter \<open>i + 1\<close>, a natural number.
\<close>

fun lastIndexByte_from :: "string \<Rightarrow> char \<Rightarrow> nat \<Rightarrow> int" where
  "lastIndexByte_from s c 0 = - 1"
| "lastIndexByte_from s c (Suc i) = (if s ! i = c then int i else lastIndexByte_from s c i)"

definition LastIndexByteString :: "string \<Rightarrow> char \<Rightarrow> int" where
  "LastIndexByteString s c = lastIndexByte_from s c (length s)"

definition path_Split :: "string \<Rightarrow> string \<times> string" where
  "path_Split path =
     (let i = LastIndexByteString path CHR ''/''
      in (take (nat (i + 1)) path, drop (nat (i + 1)) path))"

section \<open>splitPaths\<close>

text \<open>
  The first loop of \<open>splitPaths\<close> runs while \<open>fullPath != "/"\<close>; nothing in the code
  bounds it, so it is a partial function and not returning is the value \<open>None\<close>.
\<close>

partial_function (option) splitPaths_loop :: "string \<Rightarrow> string list \<Rightarrow> string list option" where
  "splitPaths_loop fullPath parts =
     (if fullPath \<noteq> ''/'' then
        (case path_Split (path_Clean fullPath) of
           (dir, file) \<Rightarrow> splitPaths_loop dir (parts @ [file]))
      else Some parts)"

declare splitPaths_loop.simps [code]

text \<open>
  The second loop, \<open>for i := len(parts) - 1; i >= 0; i--\<close>, with the counter \<open>i + 1\<close>.
\<close>

fun splitPaths_join :: "string list \<Rightarrow> nat \<Rightarrow> string \<Rightarrow> string list \<Rightarrow> string list" where
  "splitPaths_join parts 0 base result = result"
| "splitPaths_join parts (Suc i) base result =
     (let base' = base @ ''/'' @ parts ! i
      in splitPaths_join parts i base' (result @ [base']))"

definition splitPaths :: "string \<Rightarrow> string list option" where
  "splitPaths fullPath =
     (case splitPaths_loop fullPath [] of
        None \<Rightarrow> None
      | Some parts \<Rightarrow> Some (splitPaths_join parts (length parts) [] []))"

section \<open>Package variables, ServerSet and New\<close>

text \<open>
  The package keeps its configuration in package-level variables that a program may
  overwrite: \<open>BaseDirectory\<close>, \<open>MemberPrefix\<close>, \<open>BaseZnodePath\<close> and \<open>DefaultZKTimeout\<close>.
  They are the fields of \<open>package_vars\<close>, and every function that reads one takes the
  current variables as its first argument. \<open>BaseZnodePath\<close> holds a function value; the
  default one reads \<open>BaseDirectory\<close> when it is called, so the field takes the current
  \<open>BaseDirectory\<close> as its first argument. \<open>package_init\<close> holds the initial values.
\<close>

record package_vars =
  BaseDirectory :: string
  MemberPrefix :: string
  BaseZnodePath :: "string \<Rightarrow> string \<Rightarrow> string \<Rightarrow> string \<Rightarrow> string"
  DefaultZKTimeout :: Duration

definition default_BaseZnodePath :: "string \<Rightarrow> string \<Rightarrow> string \<Rightarrow> string \<Rightarrow> string" where
  "default_BaseZnodePath baseDirectory role environment service =
     baseDirectory @ ''/'' @ role @ ''/'' @ environment @ ''/'' @ service"

definition package_init :: package_vars where
  "package_init =
     \<lparr>BaseDirectory = ''/aurora'',
      MemberPrefix = ''member_'',
      BaseZnodePath = default_BaseZnodePath,
      DefaultZKTimeout = 5 * time_Second\<rparr>"

record ServerSet =
  ZKTimeout :: Duration
  role :: string
  environment :: string
  service :: string
  zkServers :: "string list"

text \<open>
  \<open>New\<close> panics with the error made by \<open>fmt.Errorf\<close> when the service name contains
  a slash. The panic is the left summand, carrying the error's message.
\<close>

definition New :: "package_vars \<Rightarrow> string \<Rightarrow> string \<Rightarrow> string \<Rightarrow> string list \<Rightarrow> string + ServerSet" where
  "New g role' environment' service' zookeepers =
     (if strings_Contains service' ''/'' then
        Inl (''service name ('' @ service' @ '') must not contain slashes'')
      else
        Inr \<lparr>ZKTimeout = DefaultZKTimeout g,
             role = role',
             environment = environment',
             service = service',
             zkServers = zookeepers\<rparr>)"

definition ZookeeperServers :: "ServerSet \<Rightarrow> string list" where
  "ZookeeperServers ss = zkServers ss"

text \<open>
  \<open>connectToZookeeper\<close> hands the stored servers and timeout to \<open>zk.Connect\<close> of the
  ZooKeeper client, which is a parameter here.
\<close>

definition connectToZookeeper :: "(string list \<Rightarrow> Duration \<Rightarrow> 'r) \<Rightarrow> ServerSet \<Rightarrow> 'r" where
  "connectToZookeeper zk_Connect ss = zk_Connect (zkServers ss) (ZKTimeout ss)"

definition directoryPath :: "package_vars \<Rightarrow> ServerSet \<Rightarrow> string" where
  "directoryPath g ss = BaseZnodePath g (BaseDirectory g) (role ss) (environment ss) (service ss)"

section \<open>The ZooKeeper connection\<close>

text \<open>
  The ZooKeeper client (\<open>github.com/go-zookeeper/zk\<close>) is outside the package. Its
  errors are values that the package compares with \<open>!=\<close>; \<open>nil\<close> is \<open>None\<close>.
  A connection is a state of type \<open>'c\<close> that each call may change; \<open>Create\<close> and
  \<open>Exists\<close> are parameters with the client's signatures (\<open>Exists\<close> without the
  \<open>*Stat\<close>, which the package drops).
\<close>

datatype zk_error =
    ErrConnectionClosed
  | ErrNoNode
  | ErrNoAuth
  | ErrNodeExists
  | ErrSessionExpired
  | ErrOther string

record zk_ACL =
  Perms :: "32 word"
  Scheme :: string
  ID :: string

definition PermAll :: "32 word" where
  "PermAll = 0x1f"

definition WorldACL :: "32 word \<Rightarrow> zk_ACL list" where
  "WorldACL perms = [\<lparr>Perms = perms, Scheme = ''world'', ID = ''anyone''\<rparr>]"

type_synonym 'c zk_Create =
  "string \<Rightarrow> string \<Rightarrow> 32 word \<Rightarrow> zk_ACL list \<Rightarrow> 'c \<Rightarrow> (string \<times> zk_error option) \<times> 'c"

type_synonym 'c zk_Exists =
  "string \<Rightarrow> 'c \<Rightarrow> (bool \<times> zk_error option) \<times> 'c"

section \<open>createFullPath and checkExistsFullPath\<close>

text \<open>
  The loop \<open>for _, key := range paths\<close> of \<open>createFullPath\<close>. It returns the error
  (or \<open>nil\<close>) together with the connection as the calls left it.
\<close>

fun createFullPath_loop :: "'c zk_Create \<Rightarrow> string list \<Rightarrow> 'c \<Rightarrow> zk_error option \<times> 'c" where
  "createFullPath_loop create [] connection = (None, connection)"
| "createFullPath_loop create (key # keys) connection =
     (case create key [] 0 (WorldACL PermAll) connection of
        ((_, err), connection') \<Rightarrow>
          if err \<noteq> None \<and> err \<noteq> Some ErrNodeExists then (err, connection')
          else createFullPath_loop create keys connection')"

text \<open>
  \<open>createFullPath\<close> first calls \<open>splitPaths\<close>; where that call does not return,
  neither does \<open>createFullPath\<close>, and the result is \<open>None\<close>.
\<close>

definition createFullPath ::
  "package_vars \<Rightarrow> 'c zk_Create \<Rightarrow> ServerSet \<Rightarrow> 'c \<Rightarrow> (zk_error option \<times> 'c) option" where
  "createFullPath g create ss connection =
     (case splitPaths (directoryPath g ss) of
        None \<Rightarrow> None
      | Some paths \<Rightarrow> Some (createFullPath_loop create paths connection))"

fun checkExistsFullPath_loop :: "'c zk_Exists \<Rightarrow> string list \<Rightarrow> 'c \<Rightarrow> zk_error option \<times> 'c" where
  "checkExistsFullPath_loop exists [] connection = (None, connection)"
| "checkExistsFullPath_loop exists (key # keys) connection =
     (case exists key connection of
        ((ex, err), connection') \<Rightarrow>
          if \<not> ex \<or> err \<noteq> None then (err, connection')
          else checkExistsFullPath_loop exists keys connection')"

definition checkExistsFullPath ::
  "package_vars \<Rightarrow> 'c zk_Exists \<Rightarrow> ServerSet \<Rightarrow> 'c \<Rightarrow> (zk_error option \<times> 'c) option" where
  "checkExistsFullPath g exists ss connection =
     (case splitPaths (directoryPath g ss) of
        None \<Rightarrow> None
      | Some paths \<Rightarrow> Some (checkExistsFullPath_loop exists paths connection))"

section \<open>Entity\<close>

text \<open>
  \<open>Port\<close> is a Go \<open>int\<close>, of the platform's width; the package does no arithmetic on
  it, and it is an \<open>int\<close> here. \<open>AdditionalEndpoints\<close> is a Go map, which is either
  \<open>nil\<close> (\<open>None\<close>) or a map (\<open>Some\<close> of its entries, with distinct keys).
\<close>

record endpoint =
  Host :: string
  Port :: int

record Entity =
  ServiceEndpoint :: endpoint
  AdditionalEndpoints :: "(string \<times> endpoint) list option"
  Shard :: "64 word"
  Status :: string

definition statusDead :: string where "statusDead = ''DEAD''"
definition statusStarting :: string where "statusStarting = ''STARTING''"
definition statusAlive :: string where "statusAlive = ''ALIVE''"
definition statusStopping :: string where "statusStopping = ''STOPPING''"
definition statusStopped :: string where "statusStopped = ''STOPPED''"
definition statusWarning :: string where "statusWarning = ''WARNING''"
definition statusUnknown :: string where "statusUnknown = ''UNKNOWN''"

definition newEntity :: "string \<Rightarrow> int \<Rightarrow> Entity" where
  "newEntity host port =
     \<lparr>ServiceEndpoint = \<lparr>Host = host, Port = port\<rparr>,
      AdditionalEndpoints = Some [],
      Shard = 0,
      Status = statusAlive\<rparr>"

subsection \<open>The JSON encoding of an Entity\<close>

text \<open>
  A member's payload is the \<open>encoding/json\<close> encoding of an \<open>Entity\<close>. For a struct the
  encoder writes the fields in the order of their declaration under the names of their
  \<open>json\<close> tags, an integer in decimal, a \<open>nil\<close> map as \<open>null\<close>, and a map as an object
  with its keys sorted bytewise.

  A string is written between double quotes. The bytes \<open>0x20\<close> to \<open>0x7f\<close> other than
  the double quote, the backslash, \<open><\<close>, \<open>>\<close> and \<open>&\<close> are copied as they are. The
  encoder escapes every other byte; escaping is not modelled, and the encoding of a
  string with such a byte is \<open>None\<close> here (which does not mean that the encoder fails
  on it).
\<close>

definition json_verbatim :: "char \<Rightarrow> bool" where
  "json_verbatim c =
     (32 \<le> (of_char c :: nat) \<and> (of_char c :: nat) < 128
      \<and> c \<noteq> CHR 0x22 \<and> c \<noteq> CHR 0x5C \<and> c \<noteq> CHR ''<'' \<and> c \<noteq> CHR ''>'' \<and> c \<noteq> CHR ''&'')"

definition json_string :: "string \<Rightarrow> string option" where
  "json_string s = (if list_all json_verbatim s then Some (CHR 0x22 # s @ [CHR 0x22]) else None)"

fun nat_digits :: "nat \<Rightarrow> string" where
  "nat_digits n =
     (if n < 10 then [''0123456789'' ! n]
      else nat_digits (n div 10) @ [''0123456789'' ! (n mod 10)])"

declare nat_digits.simps [simp del]

definition json_int :: "int \<Rightarrow> string" where
  "json_int i = (if i < 0 then CHR ''-'' # nat_digits (nat (- i)) else nat_digits (nat i))"

definition json_endpoint :: "endpoint \<Rightarrow> string option" where
  \<open>json_endpoint ep =
     (case json_string (Host ep) of
        None \<Rightarrow> None
      | Some h \<Rightarrow> Some (''{"host":'' @ h @ '',"port":'' @ json_int (Port ep) @ ''}''))\<close>

fun bytes_le :: "string \<Rightarrow> string \<Rightarrow> bool" where
  "bytes_le [] t = True"
| "bytes_le (a # as) [] = False"
| "bytes_le (a # as) (b # bs) =
     ((of_char a :: nat) < of_char b \<or> (a = b \<and> bytes_le as bs))"

fun insert_key :: "string \<times> endpoint \<Rightarrow> (string \<times> endpoint) list \<Rightarrow> (string \<times> endpoint) list" where
  "insert_key kv [] = [kv]"
| "insert_key kv (x # xs) = (if bytes_le (fst kv) (fst x) then kv # x # xs else x # insert_key kv xs)"

definition sort_keys :: "(string \<times> endpoint) list \<Rightarrow> (string \<times> endpoint) list" where
  "sort_keys kvs = foldr insert_key kvs []"

fun json_members :: "(string \<times> endpoint) list \<Rightarrow> string list option" where
  "json_members [] = Some []"
| "json_members ((k, v) # kvs) =
     (case (json_string k, json_endpoint v, json_members kvs) of
        (Some k', Some v', Some ms) \<Rightarrow> Some ((k' @ '':'' @ v') # ms)
      | _ \<Rightarrow> None)"

fun join_commas :: "string list \<Rightarrow> string" where
  "join_commas [] = []"
| "join_commas [m] = m"
| "join_commas (m # ms) = m @ '','' @ join_commas ms"

definition json_endpoint_map :: "(string \<times> endpoint) list option \<Rightarrow> string option" where
  "json_endpoint_map m =
     (case m of
        None \<Rightarrow> Some ''null''
      | Some kvs \<Rightarrow>
          (case json_members (sort_keys kvs) of
             None \<Rightarrow> None
           | Some ms \<Rightarrow> Some (''{'' @ join_commas ms @ ''}'')))"

definition json_Entity :: "Entity \<Rightarrow> string option" where
  \<open>json_Entity e =
     (case (json_endpoint (ServiceEndpoint e), json_endpoint_map (AdditionalEndpoints e),
            json_string (Status e)) of
        (Some se, Some ae, Some st) \<Rightarrow>
          Some (''{"serviceEndpoint":'' @ se @ '',"additionalEndpoints":'' @ ae
                @ '',"shard":'' @ json_int (sint (Shard e)) @ '',"status":'' @ st @ ''}'')
      | _ \<Rightarrow> None)\<close>

section \<open>Notions used to state the properties\<close>

text \<open>
  An absolute path begins with a slash. Its elements are the maximal runs of bytes other
  than the slash; \<open>.\<close> elements are dropped and a \<open>..\<close> element removes the element
  before it, which gives the segments of the normalized path. \<open>render\<close> writes a list of
  segments as a path, and \<open>chain\<close> lists the paths of its non-empty prefixes, root first.
\<close>

definition rooted :: "string \<Rightarrow> bool" where
  "rooted p = (p \<noteq> [] \<and> hd p = CHR ''/'')"

function path_elements :: "string \<Rightarrow> string list" where
  "path_elements [] = []"
| "path_elements (c # cs) =
     (if c = CHR ''/'' then path_elements cs
      else takeWhile (\<lambda>x. x \<noteq> CHR ''/'') (c # cs)
           # path_elements (dropWhile (\<lambda>x. x \<noteq> CHR ''/'') (c # cs)))"
  by pat_completeness auto
termination
  by (relation "measure length") (auto intro: le_imp_less_Suc length_dropWhile_le)

fun resolve_dots :: "string list \<Rightarrow> string list \<Rightarrow> string list" where
  "resolve_dots st [] = st"
| "resolve_dots st (e # es) =
     (if e = ''.'' then resolve_dots st es
      else if e = ''..'' then resolve_dots (butlast st) es
      else resolve_dots (st @ [e]) es)"

definition norm_segments :: "string \<Rightarrow> string list" where
  "norm_segments p = resolve_dots [] (path_elements p)"

definition render :: "string list \<Rightarrow> string" where
  "render st = concat (map (\<lambda>s. CHR ''/'' # s) st)"

definition rootbuf :: "string list \<Rightarrow> string" where
  "rootbuf st = (if st = [] then ''/'' else render st)"

definition chain :: "string list \<Rightarrow> string list" where
  "chain st = map (\<lambda>i. render (take (Suc i) st)) [0..<length st]"

definition segment :: "string \<Rightarrow> bool" where
  "segment s = (s \<noteq> [] \<and> CHR ''/'' \<notin> set s)"

definition proper :: "string \<Rightarrow> bool" where
  "proper s = (segment s \<and> s \<noteq> ''.'' \<and> s \<noteq> ''..'')"

text \<open>
  For \<open>createFullPath\<close>: the connection after \<open>Create\<close> was called for each of \<open>keys\<close> in
  turn, the error of the \<open>i\<close>-th of these calls, and the errors that the loop passes over.
\<close>

definition run_creates :: "'c zk_Create \<Rightarrow> string list \<Rightarrow> 'c \<Rightarrow> 'c" where
  "run_creates create keys connection =
     fold (\<lambda>key c. snd (create key [] 0 (WorldACL PermAll) c)) keys connection"

definition create_err :: "'c zk_Create \<Rightarrow> string list \<Rightarrow> 'c \<Rightarrow> nat \<Rightarrow> zk_error option" where
  "create_err create keys connection i =
     snd (fst (create (keys ! i) [] 0 (WorldACL PermAll) (run_creates create (take i keys) connection)))"

definition tolerated :: "zk_error option \<Rightarrow> bool" where
  "tolerated err = (err = None \<or> err = Some ErrNodeExists)"

text \<open>
  A connection for the examples: the state is the list of the node paths that exist.
  \<open>tree_Exists\<close> never fails. \<open>tree_Create\<close> fails with the error that \<open>fault\<close> gives for
  the path, if any; otherwise it answers \<open>ErrNodeExists\<close> for a node that exists and
  adds a node that does not.
\<close>

definition tree_Exists :: "string list zk_Exists" where
  "tree_Exists key nodes = ((key \<in> set nodes, None), nodes)"

definition tree_Create :: "(string \<Rightarrow> zk_error option) \<Rightarrow> string list zk_Create" where
  "tree_Create fault key data flags acl nodes =
     (case fault key of
        Some e \<Rightarrow> (([], Some e), nodes)
      | None \<Rightarrow>
          if key \<in> set nodes then (([], Some ErrNodeExists), nodes)
          else ((key, None), nodes @ [key]))"

section \<open>path.Clean on absolute paths\<close>

text \<open>
  On an absolute path the buffer of \<open>path.Clean\<close> always holds the rendering of a stack
  of segments: a real element pushes, a \<open>..\<close> element pops, and the result is the
  rendering of the normalized segments.
\<close>

lemma render_append [simp]: "render (xs @ ys) = render xs @ render ys"
  by (simp add: render_def)

lemma render_Nil [simp]: "render [] = []"
  by (simp add: render_def)

lemma render_single [simp]: "render [s] = CHR ''/'' # s"
  by (simp add: render_def)

lemma backtrack_down:
  assumes "CHR ''/'' \<notin> set s" "k \<le> length s" "dd \<le> length pre + k"
  shows "backtrack (pre @ CHR ''/'' # s) dd (length pre + k) = max dd (length pre)"
  using assms
proof (induction k)
  case 0
  then show ?case by (subst backtrack.simps) (simp add: nth_append)
next
  case (Suc k)
  show ?case
  proof (cases "dd = length pre + Suc k")
    case True
    then show ?thesis by (subst backtrack.simps) simp
  next
    case False
    have nth: "(pre @ CHR ''/'' # s) ! (length pre + Suc k) = s ! k"
      by (simp add: nth_append)
    have "s ! k \<in> set s" using Suc.prems by simp
    with Suc.prems have ne: "s ! k \<noteq> CHR ''/''" by metis
    have "backtrack (pre @ CHR ''/'' # s) dd (length pre + Suc k)
            = backtrack (pre @ CHR ''/'' # s) dd (length pre + k)"
      using False Suc.prems ne nth by (subst backtrack.simps) simp
    also have "\<dots> = max dd (length pre)"
      using Suc False by simp
    finally show ?thesis .
  qed
qed

lemma lastIndexByte_from_found:
  assumes "c \<notin> set s" "k \<le> length s"
  shows "lastIndexByte_from (pre @ c # s) c (Suc (length pre + k)) = int (length pre)"
  using assms
proof (induction k)
  case 0
  then show ?case by (simp add: nth_append)
next
  case (Suc k)
  have "s ! k \<in> set s" using Suc.prems by simp
  with Suc.prems have "s ! k \<noteq> c" by metis
  then have "(pre @ c # s) ! (Suc (length pre + k)) \<noteq> c"
    by (simp add: nth_append)
  with Suc show ?case by simp
qed

lemma path_Split_last:
  assumes "CHR ''/'' \<notin> set s"
  shows "path_Split (pre @ CHR ''/'' # s) = (pre @ ''/'', s)"
proof -
  have "LastIndexByteString (pre @ CHR ''/'' # s) CHR ''/'' = int (length pre)"
    unfolding LastIndexByteString_def
    using lastIndexByte_from_found [OF assms, of "length s" pre] by simp
  moreover have "nat (int (length pre) + 1) = Suc (length pre)" by simp
  ultimately show ?thesis by (simp add: path_Split_def Let_def del: of_nat_Suc)
qed

lemma length_render_pos: "st \<noteq> [] \<Longrightarrow> length (render st) \<ge> 1"
  by (cases st) (simp_all add: render_def)

lemma length_render_segs:
  "\<forall>s\<in>set st. segment s \<Longrightarrow> st \<noteq> [] \<Longrightarrow> length (render st) \<ge> 2"
  by (cases st; cases "hd st") (auto simp: render_def segment_def)

lemma take_backtrack_rootbuf:
  assumes good: "\<forall>s\<in>set st. segment s" and ne: "st \<noteq> []"
  shows "take (backtrack (rootbuf st) 1 (length (rootbuf st) - 1)) (rootbuf st)
           = rootbuf (butlast st)"
proof -
  obtain st' s where st: "st = st' @ [s]"
    using ne by (metis append_butlast_last_id)
  have seg: "segment s" and good': "\<forall>s\<in>set st'. segment s"
    using good st by auto
  have buf: "rootbuf st = render st' @ CHR ''/'' # s"
    by (simp add: rootbuf_def st)
  have len: "length (rootbuf st) - 1 = length (render st') + length s"
    by (simp add: buf)
  have bt: "backtrack (rootbuf st) 1 (length (rootbuf st) - 1) = max 1 (length (render st'))"
    unfolding len unfolding buf
    using seg by (intro backtrack_down) (auto simp: segment_def Suc_le_eq)
  show ?thesis
  proof (cases "st' = []")
    case True
    then show ?thesis using bt by (simp add: buf st rootbuf_def)
  next
    case False
    then have "max 1 (length (render st')) = length (render st')"
      using length_render_pos [OF False] by simp
    then show ?thesis using bt False by (simp add: buf st rootbuf_def)
  qed
qed

lemma takeWhile_dot:
  "c \<noteq> CHR ''/'' \<Longrightarrow>
   (takeWhile (\<lambda>x. x \<noteq> CHR ''/'') (c # cs) = ''.'') = (c = CHR ''.'' \<and> (cs = [] \<or> hd cs = CHR ''/''))"
  by (cases cs) auto

lemma takeWhile_dotdot:
  "c \<noteq> CHR ''/'' \<Longrightarrow>
   (takeWhile (\<lambda>x. x \<noteq> CHR ''/'') (c # cs) = ''..'')
     = (c = CHR ''.'' \<and> cs \<noteq> [] \<and> hd cs = CHR ''.'' \<and> (tl cs = [] \<or> hd (tl cs) = CHR ''/''))"
  by (cases cs; cases "tl cs") auto

lemma dropWhile_dot:
  "cs = [] \<or> hd cs = CHR ''/'' \<Longrightarrow> dropWhile (\<lambda>x. x \<noteq> CHR ''/'') (CHR ''.'' # cs) = cs"
  by (cases cs) auto

lemma dropWhile_dotdot:
  "cs \<noteq> [] \<Longrightarrow> hd cs = CHR ''.'' \<Longrightarrow> tl cs = [] \<or> hd (tl cs) = CHR ''/'' \<Longrightarrow>
   dropWhile (\<lambda>x. x \<noteq> CHR ''/'') (CHR ''.'' # cs) = tl cs"
  by (cases cs; cases "tl cs") auto

lemma segment_takeWhile:
  "c \<noteq> CHR ''/'' \<Longrightarrow> segment (takeWhile (\<lambda>x. x \<noteq> CHR ''/'') (c # cs))"
  by (auto simp: segment_def dest: set_takeWhileD)

lemma rootbuf_push:
  "(if length (rootbuf st) \<noteq> 1 then rootbuf st @ ''/'' else rootbuf st) @ e = rootbuf (st @ [e])"
  if "\<forall>s\<in>set st. segment s"
proof (cases "st = []")
  case True
  then show ?thesis by (simp add: rootbuf_def)
next
  case False
  with length_render_segs [OF that False] show ?thesis
    by (simp add: rootbuf_def)
qed

lemma clean_loop_rooted:
  "\<forall>s\<in>set st. segment s \<Longrightarrow>
   clean_loop True rest (rootbuf st) 1 = rootbuf (resolve_dots st (path_elements rest))"
proof (induction rest arbitrary: st rule: path_elements.induct)
  case 1
  then show ?case by simp
next
  case (2 c cs)
  let ?e = "takeWhile (\<lambda>x. x \<noteq> CHR ''/'') (c # cs)"
  let ?r = "dropWhile (\<lambda>x. x \<noteq> CHR ''/'') (c # cs)"
  show ?case
  proof (cases "c = CHR ''/''")
    case True
    with 2 show ?thesis by (simp add: clean_loop.simps(2))
  next
    case sep: False
    note IH = "2.IH"(2) [OF sep]
    have pe: "path_elements (c # cs) = ?e # path_elements ?r"
      using sep by simp
    consider (dot) "?e = ''.''" | (dotdot) "?e = ''..''" | (real) "?e \<noteq> ''.''" "?e \<noteq> ''..''"
      by blast
    then show ?thesis
    proof cases
      case dot
      then have c: "c = CHR ''.''" "cs = [] \<or> hd cs = CHR ''/''"
        using takeWhile_dot [OF sep, of cs] by auto
      have r: "?r = cs" using dropWhile_dot [OF c(2)] c(1) by simp
      have "clean_loop True (c # cs) (rootbuf st) 1 = clean_loop True cs (rootbuf st) 1"
        using c by (subst clean_loop.simps(2)) simp
      also have "\<dots> = rootbuf (resolve_dots st (path_elements cs))"
        using IH [OF "2.prems"] r by simp
      also have "\<dots> = rootbuf (resolve_dots st (path_elements (c # cs)))"
        using sep dot r by simp
      finally show ?thesis .
    next
      case dotdot
      then have c: "c = CHR ''.''" "cs \<noteq> []" "hd cs = CHR ''.''" "tl cs = [] \<or> hd (tl cs) = CHR ''/''"
        using takeWhile_dotdot [OF sep, of cs] by auto
      have r: "?r = tl cs" using dropWhile_dotdot [OF c(2,3,4)] c(1) by simp
      have good': "\<forall>s\<in>set (butlast st). segment s"
        using "2.prems" by (auto dest: in_set_butlastD)
      have step: "clean_loop True (c # cs) (rootbuf st) 1 = clean_loop True (tl cs) (rootbuf (butlast st)) 1"
      proof (cases "st = []")
        case True
        then show ?thesis using c by (subst clean_loop.simps(2)) (simp add: rootbuf_def)
      next
        case False
        have "1 < length (rootbuf st)"
          using length_render_segs [OF "2.prems" False] False by (simp add: rootbuf_def)
        then show ?thesis
          using c take_backtrack_rootbuf [OF "2.prems" False]
          by (subst clean_loop.simps(2)) simp
      qed
      also have "\<dots> = rootbuf (resolve_dots (butlast st) (path_elements (tl cs)))"
        using IH [OF good'] r by simp
      also have "\<dots> = rootbuf (resolve_dots st (path_elements (c # cs)))"
        using sep dotdot r by simp
      finally show ?thesis .
    next
      case real
      have nd: "\<not> (c = CHR ''.'' \<and> (cs = [] \<or> hd cs = CHR ''/''))"
        using real(1) takeWhile_dot [OF sep, of cs] by simp
      have ndd: "\<not> (c = CHR ''.'' \<and> hd cs = CHR ''.'' \<and> (tl cs = [] \<or> hd (tl cs) = CHR ''/''))"
        using real(2) nd takeWhile_dotdot [OF sep, of cs] by auto
      have good': "\<forall>s\<in>set (st @ [?e]). segment s"
        using "2.prems" segment_takeWhile [OF sep, of cs] by auto
      have "clean_loop True (c # cs) (rootbuf st) 1
              = clean_loop True ?r ((if length (rootbuf st) \<noteq> 1 then rootbuf st @ ''/'' else rootbuf st) @ ?e) 1"
        by (subst clean_loop.simps(2)) (simp only: sep nd ndd if_False Let_def simp_thms)
      also have "\<dots> = clean_loop True ?r (rootbuf (st @ [?e])) 1"
        by (simp only: rootbuf_push [OF "2.prems"])
      also have "\<dots> = rootbuf (resolve_dots (st @ [?e]) (path_elements ?r))"
        by (rule IH [OF good'])
      also have "\<dots> = rootbuf (resolve_dots st (path_elements (c # cs)))"
        by (simp only: pe resolve_dots.simps real if_False)
      finally show ?thesis .
    qed
  qed
qed

section \<open>The loops of splitPaths on absolute paths\<close>

lemma path_elements_segment: "\<forall>e\<in>set (path_elements p). segment e"
proof (induction p rule: path_elements.induct)
  case 1
  then show ?case by simp
next
  case (2 c cs)
  show ?case
  proof (cases "c = CHR ''/''")
    case True
    then show ?thesis using "2.IH"(1) by simp
  next
    case False
    have "path_elements (c # cs) = takeWhile (\<lambda>x. x \<noteq> CHR ''/'') (c # cs)
            # path_elements (dropWhile (\<lambda>x. x \<noteq> CHR ''/'') (c # cs))"
      using False by simp
    then show ?thesis
      using "2.IH"(2) [OF False] segment_takeWhile [OF False, of cs] by (simp del: takeWhile.simps dropWhile.simps)
  qed
qed

lemma resolve_dots_proper:
  "\<forall>s\<in>set st. proper s \<Longrightarrow> \<forall>e\<in>set es. segment e \<Longrightarrow> \<forall>s\<in>set (resolve_dots st es). proper s"
proof (induction es arbitrary: st)
  case Nil
  then show ?case by simp
next
  case (Cons e es)
  have es: "\<forall>e\<in>set es. segment e" and e: "segment e"
    using Cons.prems(2) by simp_all
  consider (dot) "e = ''.''" | (dotdot) "e \<noteq> ''.''" "e = ''..''" | (real) "e \<noteq> ''.''" "e \<noteq> ''..''"
    by blast
  then show ?case
  proof cases
    case dot
    then show ?thesis using Cons.IH [OF Cons.prems(1) es] by simp
  next
    case dotdot
    have "\<forall>s\<in>set (butlast st). proper s"
      using Cons.prems(1) by (auto dest: in_set_butlastD)
    from Cons.IH [OF this es] show ?thesis using dotdot by simp
  next
    case real
    have "\<forall>s\<in>set (st @ [e]). proper s"
      using Cons.prems(1) e real by (simp add: proper_def)
    from Cons.IH [OF this es] show ?thesis using real by simp
  qed
qed

lemma norm_segments_proper: "\<forall>s\<in>set (norm_segments p). proper s"
  unfolding norm_segments_def
  by (rule resolve_dots_proper) (simp_all add: path_elements_segment)

lemma resolve_dots_id:
  "\<forall>s\<in>set es. proper s \<Longrightarrow> resolve_dots st es = st @ es"
  by (induction es arbitrary: st) (auto simp: proper_def)

lemma path_elements_seg_sep:
  "segment s \<Longrightarrow> path_elements (s @ CHR ''/'' # rest) = s # path_elements rest"
proof -
  assume seg: "segment s"
  then obtain c cs where s: "s = c # cs" by (cases s) (auto simp: segment_def)
  have nc: "c \<noteq> CHR ''/''" and ncs: "CHR ''/'' \<notin> set cs"
    using seg s by (auto simp: segment_def)
  have all: "\<And>x. x \<in> set cs \<Longrightarrow> x \<noteq> CHR ''/''"
    using ncs by auto
  have tw: "takeWhile (\<lambda>x. x \<noteq> CHR ''/'') (cs @ CHR ''/'' # rest) = cs"
    using takeWhile_append2 [of cs "\<lambda>x. x \<noteq> CHR ''/''" "CHR ''/'' # rest"] all by simp
  have dw: "dropWhile (\<lambda>x. x \<noteq> CHR ''/'') (cs @ CHR ''/'' # rest) = CHR ''/'' # rest"
    using dropWhile_append2 [of cs "\<lambda>x. x \<noteq> CHR ''/''" "CHR ''/'' # rest"] all by simp
  show ?thesis using nc tw dw by (simp add: s)
qed

lemma path_elements_dirs:
  "\<forall>s\<in>set st. segment s \<Longrightarrow> path_elements (concat (map (\<lambda>s. s @ ''/'') st)) = st"
  by (induction st) (simp_all add: path_elements_seg_sep)

lemma render_slash: "render st @ ''/'' = CHR ''/'' # concat (map (\<lambda>s. s @ ''/'') st)"
  by (induction st) (simp_all add: render_def)

lemma path_Clean_rooted:
  assumes "rooted p"
  shows "path_Clean p = rootbuf (norm_segments p)"
proof -
  obtain cs where p: "p = CHR ''/'' # cs"
    using assms by (cases p) (auto simp: rooted_def)
  have "clean_loop True cs ''/'' 1 = rootbuf (resolve_dots [] (path_elements cs))"
    using clean_loop_rooted [of "[]" cs] by (simp add: rootbuf_def)
  moreover have "rootbuf (resolve_dots [] (path_elements cs)) \<noteq> []"
    by (simp add: rootbuf_def render_def)
  ultimately show ?thesis
    by (simp add: path_Clean_def p norm_segments_def Let_def)
qed

lemma norm_segments_dir:
  assumes "\<forall>s\<in>set st. proper s"
  shows "norm_segments (render st @ ''/'') = st"
proof -
  have seg: "\<forall>s\<in>set st. segment s" using assms by (simp add: proper_def)
  have "path_elements (render st @ ''/'') = st"
    by (simp add: render_slash path_elements_dirs [OF seg])
  then show ?thesis by (simp add: norm_segments_def resolve_dots_id [OF assms])
qed

lemma rooted_dir: "rooted (render st @ ''/'')"
  by (simp add: render_slash rooted_def)

lemma path_Split_rootbuf_snoc:
  assumes "segment s"
  shows "path_Split (rootbuf (st @ [s])) = (render st @ ''/'', s)"
  using path_Split_last [of s "render st"] assms by (simp add: rootbuf_def segment_def)

lemma path_Split_root: "path_Split ''/'' = (''/'', [])"
  by (simp add: path_Split_def LastIndexByteString_def)

lemma render_dir_eq_root: "\<forall>s\<in>set st. segment s \<Longrightarrow> (render st @ ''/'' = ''/'') = (st = [])"
  by (cases st) (auto simp: render_def segment_def)

lemma splitPaths_loop_dir:
  "\<forall>s\<in>set st. proper s \<Longrightarrow> splitPaths_loop (render st @ ''/'') parts = Some (parts @ rev st)"
proof (induction st arbitrary: parts rule: rev_induct)
  case Nil
  then show ?case by (subst splitPaths_loop.simps) simp
next
  case (snoc s st)
  let ?p = "render (st @ [s]) @ ''/''"
  have good: "\<forall>s\<in>set st. proper s" and s: "proper s" using snoc.prems by auto
  have ne: "?p \<noteq> ''/''"
    using render_dir_eq_root [of "st @ [s]"] snoc.prems by (simp add: proper_def)
  have "path_Clean ?p = rootbuf (norm_segments ?p)"
    by (rule path_Clean_rooted [OF rooted_dir])
  then have cl: "path_Clean ?p = rootbuf (st @ [s])"
    by (simp only: norm_segments_dir [OF snoc.prems])
  have sp: "path_Split (path_Clean ?p) = (render st @ ''/'', s)"
    unfolding cl using s by (intro path_Split_rootbuf_snoc) (simp add: proper_def)
  have "splitPaths_loop ?p parts = splitPaths_loop (render st @ ''/'') (parts @ [s])"
    by (subst splitPaths_loop.simps) (simp only: ne sp if_True simp_thms prod.case)
  then show ?case using snoc.IH [OF good] by simp
qed

lemma splitPaths_loop_rooted:
  assumes "rooted p"
  shows "splitPaths_loop p [] =
           Some (if p = ''/'' then [] else if norm_segments p = [] then [[]] else rev (norm_segments p))"
proof (cases "p = ''/''")
  case True
  then show ?thesis by (subst splitPaths_loop.simps) simp
next
  case False
  note cl = path_Clean_rooted [OF assms]
  show ?thesis
  proof (cases "norm_segments p" rule: rev_cases)
    case Nil
    have "splitPaths_loop p [] = splitPaths_loop ''/'' [[]]"
      by (subst splitPaths_loop.simps) (simp add: False cl Nil rootbuf_def path_Split_root)
    also have "\<dots> = Some [[]]"
      by (subst splitPaths_loop.simps) simp
    finally show ?thesis using False Nil by simp
  next
    case (snoc st s)
    have pr: "\<forall>x\<in>set (st @ [s]). proper x"
      using norm_segments_proper [of p] snoc by simp
    then have good: "\<forall>x\<in>set st. proper x" and s: "segment s" by (auto simp: proper_def)
    have sp: "path_Split (path_Clean p) = (render st @ ''/'', s)"
      unfolding cl snoc by (rule path_Split_rootbuf_snoc [OF s])
    have "splitPaths_loop p [] = splitPaths_loop (render st @ ''/'') [s]"
      by (subst splitPaths_loop.simps) (simp add: False sp)
    then show ?thesis using splitPaths_loop_dir [OF good, of "[s]"] False snoc by simp
  qed
qed

lemma splitPaths_join_rev:
  "n \<le> length st \<Longrightarrow>
   splitPaths_join (rev st) n (render (take (length st - n) st)) result
     = result @ map (\<lambda>i. render (take i st)) [Suc (length st - n)..<Suc (length st)]"
proof (induction n arbitrary: result)
  case 0
  then show ?case by simp
next
  case (Suc n)
  let ?k = "length st - Suc n"
  have k: "?k < length st" "Suc ?k = length st - n" using Suc.prems by auto
  have nth: "rev st ! n = st ! ?k"
    using Suc.prems by (simp add: rev_nth)
  have "take (length st - n) st = take ?k st @ [st ! ?k]"
    using take_Suc_conv_app_nth [OF k(1)] k(2) by simp
  then have base: "render (take ?k st) @ ''/'' @ rev st ! n = render (take (length st - n) st)"
    by (simp add: nth)
  have "splitPaths_join (rev st) (Suc n) (render (take ?k st)) result
          = splitPaths_join (rev st) n (render (take (length st - n) st))
              (result @ [render (take (length st - n) st)])"
    by (simp only: splitPaths_join.simps Let_def base)
  also have "\<dots> = (result @ [render (take (length st - n) st)])
                    @ map (\<lambda>i. render (take i st)) [Suc (length st - n)..<Suc (length st)]"
    using Suc.prems by (intro Suc.IH) simp
  also have "\<dots> = result @ map (\<lambda>i. render (take i st)) [Suc ?k..<Suc (length st)]"
    using k by (simp add: upt_conv_Cons [of "length st - n"])
  finally show ?case .
qed

lemma splitPaths_join_chain: "splitPaths_join (rev st) (length st) [] [] = chain st"
proof -
  have "map (\<lambda>i. render (take i st)) [Suc 0..<Suc (length st)]
          = map (\<lambda>i. render (take i st)) (map Suc [0..<length st])"
    by (simp only: map_Suc_upt)
  also have "\<dots> = chain st"
    by (simp add: chain_def)
  finally show ?thesis
    using splitPaths_join_rev [of "length st" st "[]"] by simp
qed

lemma splitPaths_rooted:
  assumes "rooted p"
  shows "splitPaths p =
           Some (if p = ''/'' then [] else if norm_segments p = [] then [''/'']
                 else chain (norm_segments p))"
  using splitPaths_join_chain [of "norm_segments p"]
  by (simp add: splitPaths_def splitPaths_loop_rooted [OF assms])

section \<open>Relative paths, and the measure of the first loop\<close>

lemma rooted_take: "rooted (take k s) \<Longrightarrow> rooted s"
  by (cases s; cases k) (auto simp: rooted_def)

lemma clean_loop_unrooted:
  "\<not> r \<Longrightarrow> \<not> rooted out \<Longrightarrow> \<not> rooted (clean_loop r rest out dotdot)"
proof (induction r rest out dotdot rule: clean_loop.induct)
  case (1 rooted out dotdot)
  then show ?case by simp
next
  case (2 r c cs out dotdot)
  let ?e = "takeWhile (\<lambda>x. x \<noteq> CHR ''/'') (c # cs)"
  let ?r = "dropWhile (\<lambda>x. x \<noteq> CHR ''/'') (c # cs)"
  note nr = \<open>\<not> r\<close> and no = \<open>\<not> rooted out\<close>
  show ?case
  proof (cases "c = CHR ''/''")
    case True
    then show ?thesis using "2.IH"(1) nr no by (subst clean_loop.simps(2)) simp
  next
    case sep: False
    show ?thesis
    proof (cases "c = CHR ''.'' \<and> (cs = [] \<or> hd cs = CHR ''/'')")
      case True
      then show ?thesis using "2.IH"(2) [OF sep True nr no] sep by (subst clean_loop.simps(2)) simp
    next
      case nd: False
      show ?thesis
      proof (cases "c = CHR ''.'' \<and> hd cs = CHR ''.'' \<and> (tl cs = [] \<or> hd (tl cs) = CHR ''/'')")
        case dd: True
        show ?thesis
        proof (cases "dotdot < length out")
          case True
          let ?o = "take (backtrack out dotdot (length out - 1)) out"
          have "\<not> rooted ?o" using no rooted_take by blast
          from "2.IH"(3) [OF sep nd dd True nr this]
          have "\<not> rooted (clean_loop r (tl cs) ?o dotdot)" .
          moreover have "clean_loop r (c # cs) out dotdot = clean_loop r (tl cs) ?o dotdot"
            using sep nd dd True by (subst clean_loop.simps(2)) simp
          ultimately show ?thesis by simp
        next
          case False
          let ?o = "(if length out > 0 then out @ ''/'' else out) @ ''..''"
          have o: "\<not> rooted ?o" using no by (cases out) (auto simp: rooted_def)
          from "2.IH"(4) [OF sep nd dd False nr refl nr o]
          have "\<not> rooted (clean_loop r (tl cs) ?o (length ?o))" .
          moreover have "clean_loop r (c # cs) out dotdot = clean_loop r (tl cs) ?o (length ?o)"
            using sep nd dd False nr by (subst clean_loop.simps(2)) (simp add: Let_def)
          ultimately show ?thesis by simp
        qed
      next
        case ndd: False
        let ?o' = "(if r \<and> length out \<noteq> 1 \<or> \<not> r \<and> length out \<noteq> 0 then out @ ''/'' else out)"
        have o: "\<not> rooted (?o' @ ?e)" using no nr sep by (cases out) (auto simp: rooted_def)
        from "2.IH"(6) [OF sep nd ndd refl nr o]
        have "\<not> rooted (clean_loop r ?r (?o' @ ?e) dotdot)" .
        moreover have "clean_loop r (c # cs) out dotdot = clean_loop r ?r (?o' @ ?e) dotdot"
          by (subst clean_loop.simps(2)) (simp only: sep nd ndd if_False Let_def)
        ultimately show ?thesis by simp
      qed
    qed
  qed
qed

lemma path_Clean_unrooted: "\<not> rooted p \<Longrightarrow> \<not> rooted (path_Clean p)"
  using clean_loop_unrooted [of False "[]" p 0]
  by (auto simp: path_Clean_def Let_def rooted_def)

lemma path_Split_fst: "fst (path_Split q) = take (nat (LastIndexByteString q CHR ''/'' + 1)) q"
  by (simp add: path_Split_def Let_def)

lemma splitPaths_dir_unrooted:
  "\<not> rooted p \<Longrightarrow> \<not> rooted (fst (path_Split (path_Clean p)))"
  using path_Clean_unrooted [of p] rooted_take unfolding path_Split_fst by blast

lemma splitPaths_loop_Some_rooted:
  assumes ret: "splitPaths_loop p parts = Some r"
  shows "rooted p"
proof (rule splitPaths_loop.raw_induct [where P = "\<lambda>p parts r. rooted p", OF _ ret])
  fix f :: "string \<Rightarrow> string list \<Rightarrow> string list option" and p parts r
  assume IH: "\<And>p' parts' r'. f p' parts' = Some r' \<Longrightarrow> rooted p'"
  assume body: "(if p \<noteq> ''/'' then
                   (case path_Split (path_Clean p) of (dir, file) \<Rightarrow> f dir (parts @ [file]))
                 else Some parts) = Some r"
  show "rooted p"
  proof (cases "p = ''/''")
    case True
    then show ?thesis by (simp add: rooted_def)
  next
    case False
    obtain d l where sp: "path_Split (path_Clean p) = (d, l)"
      by (cases "path_Split (path_Clean p)")
    with body False have "f d (parts @ [l]) = Some r" by simp
    then have "rooted d" by (rule IH)
    then show ?thesis using splitPaths_dir_unrooted [of p] sp by auto
  qed
qed

lemma splitPaths_unrooted: "\<not> rooted p \<Longrightarrow> splitPaths p = None"
  using splitPaths_loop_Some_rooted [of p "[]"]
  by (cases "splitPaths_loop p []") (auto simp: splitPaths_def)

lemma length_render_butlast: "length (render (butlast st)) \<le> length (render st)"
  by (cases st rule: rev_cases) simp_all

lemma length_render_resolve:
  "length (render (resolve_dots st es)) \<le> length (render st) + length (render es)"
proof (induction es arbitrary: st)
  case Nil
  then show ?case by simp
next
  case (Cons e es)
  have r: "length (render (e # es)) = Suc (length e) + length (render es)"
    by (simp add: render_def)
  show ?case
    using Cons.IH [of st] Cons.IH [of "butlast st"] Cons.IH [of "st @ [e]"]
      length_render_butlast [of st]
    by (simp add: r)
qed

lemma length_render_elements:
  "length (render (path_elements p)) \<le> length p + (if rooted p \<or> p = [] then 0 else 1)"
proof (induction p rule: path_elements.induct)
  case 1
  then show ?case by simp
next
  case (2 c cs)
  let ?e = "takeWhile (\<lambda>x. x \<noteq> CHR ''/'') (c # cs)"
  let ?r = "dropWhile (\<lambda>x. x \<noteq> CHR ''/'') (c # cs)"
  show ?case
  proof (cases "c = CHR ''/''")
    case True
    then show ?thesis using "2.IH"(1) by (simp add: rooted_def split: if_splits)
  next
    case False
    have pe: "path_elements (c # cs) = ?e # path_elements ?r"
      using False by simp
    have "rooted ?r \<or> ?r = []"
      using hd_dropWhile [of "\<lambda>x. x \<noteq> CHR ''/''" "c # cs"] by (auto simp only: rooted_def)
    then have "length (render (path_elements ?r)) \<le> length ?r"
      using "2.IH"(2) [OF False] by (simp only: if_True add_0_right)
    moreover have "length ?e + length ?r = length (c # cs)"
      using takeWhile_dropWhile_id [of "\<lambda>x. x \<noteq> CHR ''/''" "c # cs"]
      by (metis length_append)
    moreover have "length (render (?e # path_elements ?r)) = Suc (length ?e) + length (render (path_elements ?r))"
      by (simp add: render_def)
    ultimately show ?thesis using False unfolding pe by (simp add: rooted_def del: takeWhile.simps dropWhile.simps)
  qed
qed

lemma length_path_Clean_rooted:
  assumes "rooted p"
  shows "length (render (norm_segments p)) \<le> length p"
  using length_render_resolve [of "[]" "path_elements p"] length_render_elements [of p] assms
  by (simp add: norm_segments_def)

lemma splitPaths_measure:
  assumes "rooted p" "p \<noteq> ''/''"
  shows "length (fst (path_Split (path_Clean p))) < length p \<and> rooted (fst (path_Split (path_Clean p)))"
proof (cases "norm_segments p" rule: rev_cases)
  case Nil
  have "2 \<le> length p" using assms by (cases p; cases "tl p") (auto simp: rooted_def)
  then show ?thesis
    by (simp add: path_Clean_rooted [OF assms(1)] Nil rootbuf_def path_Split_root rooted_def)
next
  case (snoc st s)
  have s: "segment s" using norm_segments_proper [of p] snoc by (simp add: proper_def)
  have sp: "path_Split (path_Clean p) = (render st @ ''/'', s)"
    unfolding path_Clean_rooted [OF assms(1)] snoc by (rule path_Split_rootbuf_snoc [OF s])
  have "length (render st @ ''/'') < length (render (st @ [s]))"
    using s by (simp add: segment_def)
  also have "\<dots> \<le> length p"
    using length_path_Clean_rooted [OF assms(1)] snoc by simp
  finally show ?thesis using rooted_dir [of st] by (simp add: sp)
qed

section \<open>New, directoryPath and newEntity\<close>

lemma strings_Contains_byte: "strings_Contains s [c] = (c \<in> set s)"
  by (induction s) auto

lemma New_Inr:
  "CHR ''/'' \<notin> set s \<Longrightarrow>
   New g r e s z = Inr \<lparr>ZKTimeout = DefaultZKTimeout g, role = r, environment = e, service = s, zkServers = z\<rparr>"
  by (simp add: New_def strings_Contains_byte)

lemma New_Inl:
  "CHR ''/'' \<in> set s \<Longrightarrow> New g r e s z = Inl (''service name ('' @ s @ '') must not contain slashes'')"
  by (simp add: New_def strings_Contains_byte)

text \<open>
  C4. \<open>New\<close> panics exactly when the service name contains a slash, with the message
  of the source, and returns a \<open>ServerSet\<close> exactly when it does not; a call that panics
  returns no \<open>ServerSet\<close>. \<open>New\<close> is a function of the package variables and its four
  arguments alone: it is given no connection, so a panic comes before any call to
  ZooKeeper.
\<close>

theorem New_panics_iff:
  "((\<exists>m. New g r e s z = Inl m) \<longleftrightarrow> CHR ''/'' \<in> set s)
   \<and> ((\<exists>ss. New g r e s z = Inr ss) \<longleftrightarrow> CHR ''/'' \<notin> set s)
   \<and> (CHR ''/'' \<in> set s \<longrightarrow>
        New g r e s z = Inl (''service name ('' @ s @ '') must not contain slashes''))"
proof (cases "CHR ''/'' \<in> set s")
  case True
  then show ?thesis using New_Inl [OF True, of g r e z] by simp
next
  case False
  then show ?thesis using New_Inr [OF False, of g r e z] by simp
qed

theorem New_panics_iff_witness:
  "New package_init ''www'' ''prod'' ''bad/name'' [''zk1:2181'']
     = Inl ''service name (bad/name) must not contain slashes''
   \<and> (\<exists>ss. New package_init ''www'' ''prod'' ''frontend'' [''zk1:2181''] = Inr ss)"
  using New_panics_iff [of package_init "''www''" "''prod''" "''bad/name''" "[''zk1:2181'']"]
    New_panics_iff [of package_init "''www''" "''prod''" "''frontend''" "[''zk1:2181'']"]
  by simp

text \<open>
  C5. With the default \<open>BaseZnodePath\<close>, for a service name without a slash,
  \<open>directoryPath\<close> is the base directory, the role, the environment and the service
  joined by slashes; for \<open>www\<close>, \<open>prod\<close>, \<open>frontend\<close> and the initial base \<open>/aurora\<close>
  it is \<open>/aurora/www/prod/frontend\<close>. (As a function of the variables and the three
  strings it is deterministic.)
\<close>

theorem directoryPath_default:
  "(BaseZnodePath g = default_BaseZnodePath \<and> CHR ''/'' \<notin> set s \<longrightarrow>
      (\<exists>ss. New g r e s z = Inr ss
            \<and> directoryPath g ss = BaseDirectory g @ ''/'' @ r @ ''/'' @ e @ ''/'' @ s))
   \<and> BaseZnodePath package_init = default_BaseZnodePath
   \<and> BaseDirectory package_init = ''/aurora''
   \<and> (\<exists>ss. New package_init ''www'' ''prod'' ''frontend'' z = Inr ss
            \<and> directoryPath package_init ss = ''/aurora/www/prod/frontend'')"
  by (simp add: New_Inr directoryPath_def default_BaseZnodePath_def package_init_def)

theorem directoryPath_default_witness:
  "BaseZnodePath package_init = default_BaseZnodePath \<and> CHR ''/'' \<notin> set ''db''
   \<and> (\<exists>ss. New package_init ''ops'' ''test'' ''db'' [] = Inr ss
            \<and> directoryPath package_init ss = ''/aurora/ops/test/db'')"
  using directoryPath_default [of package_init "''db''" "''ops''" "''test''" "[]"]
  by (simp add: package_init_def)

lemma json_int_8080: "json_int 8080 = ''8080''"
  by (simp add: json_int_def nat_digits.simps)

lemma json_int_0: "json_int 0 = ''0''"
  by (simp add: json_int_def nat_digits.simps)

lemma json_string_host: \<open>json_string ''10.0.0.5'' = Some ''"10.0.0.5"''\<close>
  by code_simp

lemma json_string_ALIVE: \<open>json_string ''ALIVE'' = Some ''"ALIVE"''\<close>
  by code_simp

lemma json_endpoint_host:
  \<open>json_endpoint \<lparr>Host = ''10.0.0.5'', Port = 8080\<rparr> = Some ''{"host":"10.0.0.5","port":8080}''\<close>
  by (simp add: json_endpoint_def json_string_host json_int_8080)

lemma json_endpoint_map_empty: "json_endpoint_map (Some []) = Some ''{}''"
  by (simp add: json_endpoint_map_def sort_keys_def)

text \<open>
  C6. \<open>newEntity host port\<close> has the given service endpoint, a map of additional
  endpoints that is empty and not \<open>nil\<close>, shard \<open>0\<close> and status \<open>ALIVE\<close>; the JSON
  encoding of \<open>newEntity "10.0.0.5" 8080\<close> is the string of the specification.
\<close>

theorem newEntity_fields:
  \<open>ServiceEndpoint (newEntity host port) = \<lparr>Host = host, Port = port\<rparr>
   \<and> AdditionalEndpoints (newEntity host port) = Some []
   \<and> Shard (newEntity host port) = 0
   \<and> Status (newEntity host port) = ''ALIVE''
   \<and> json_Entity (newEntity ''10.0.0.5'' 8080) =
       Some ''{"serviceEndpoint":{"host":"10.0.0.5","port":8080},"additionalEndpoints":{},"shard":0,"status":"ALIVE"}''\<close>
proof -
  have f1: "ServiceEndpoint (newEntity host port) = \<lparr>Host = host, Port = port\<rparr>"
    by (simp add: newEntity_def)
  have f2: "AdditionalEndpoints (newEntity host port) = Some []"
    by (simp add: newEntity_def)
  have f3: "Shard (newEntity host port) = 0"
    by (simp add: newEntity_def)
  have f4: "Status (newEntity host port) = ''ALIVE''"
    by (simp add: newEntity_def statusAlive_def)
  have j: \<open>json_Entity (newEntity ''10.0.0.5'' 8080) =
       Some ''{"serviceEndpoint":{"host":"10.0.0.5","port":8080},"additionalEndpoints":{},"shard":0,"status":"ALIVE"}''\<close>
    by (simp add: json_Entity_def newEntity_def json_endpoint_host json_endpoint_map_empty
          statusAlive_def json_string_ALIVE json_int_0)
  show ?thesis by (intro conjI f1 f2 f3 f4 j)
qed

text \<open>
  C7. \<open>splitPaths\<close> of the root path \<open>/\<close> returns the empty sequence.
\<close>

theorem splitPaths_root: "splitPaths ''/'' = Some []"
  using splitPaths_rooted [of "''/''"] by (simp add: rooted_def)

text \<open>
  C8. For a service name without a slash \<open>New\<close> returns a \<open>ServerSet\<close> whose timeout is
  \<open>DefaultZKTimeout\<close>, initially 5 seconds, and which stores the role, the environment,
  the service and the servers as given. Assigning the exported field \<open>ZKTimeout\<close>
  afterwards changes the timeout that \<open>connectToZookeeper\<close> passes on and nothing else.
\<close>

theorem New_default_timeout:
  "CHR ''/'' \<notin> set s \<Longrightarrow>
   \<exists>ss. New g r e s z = Inr ss
      \<and> ZKTimeout ss = DefaultZKTimeout g
      \<and> role ss = r \<and> environment ss = e \<and> service ss = s \<and> zkServers ss = z
      \<and> DefaultZKTimeout package_init = 5 * time_Second
      \<and> sint (DefaultZKTimeout package_init) = 5000000000
      \<and> (\<forall>t. ZKTimeout (ss\<lparr>ZKTimeout := t\<rparr>) = t
             \<and> role (ss\<lparr>ZKTimeout := t\<rparr>) = r \<and> environment (ss\<lparr>ZKTimeout := t\<rparr>) = e
             \<and> service (ss\<lparr>ZKTimeout := t\<rparr>) = s \<and> zkServers (ss\<lparr>ZKTimeout := t\<rparr>) = z
             \<and> connectToZookeeper zk_Connect (ss\<lparr>ZKTimeout := t\<rparr>) = zk_Connect z t)"
  by (simp add: New_Inr package_init_def time_Second_def connectToZookeeper_def)

theorem New_default_timeout_witness:
  "CHR ''/'' \<notin> set ''frontend''
   \<and> (\<exists>ss. New package_init ''www'' ''prod'' ''frontend'' [''zk1:2181''] = Inr ss
          \<and> sint (ZKTimeout ss) = 5000000000
          \<and> connectToZookeeper Pair (ss\<lparr>ZKTimeout := 2 * time_Second\<rparr>) = ([''zk1:2181''], 2000000000))"
  using New_default_timeout [of "''frontend''" package_init "''www''" "''prod''" "[''zk1:2181'']" Pair]
  by (auto simp: time_Second_def)

section \<open>The ancestor chain\<close>

lemma length_chain: "length (chain st) = length st"
  by (simp add: chain_def)

lemma nth_chain: "i < length st \<Longrightarrow> chain st ! i = render (take (Suc i) st)"
  by (simp add: chain_def)

lemma last_chain: "st \<noteq> [] \<Longrightarrow> last (chain st) = render st"
proof -
  assume ne: "st \<noteq> []"
  then have "chain st \<noteq> []" using length_chain [of st] by (metis length_0_conv)
  then have "last (chain st) = chain st ! (length st - 1)"
    by (simp add: last_conv_nth length_chain)
  also have "\<dots> = render (take (Suc (length st - 1)) st)"
    using ne by (intro nth_chain) simp
  also have "\<dots> = render st" using ne by simp
  finally show ?thesis .
qed

lemma chain_strict_prefix:
  assumes "Suc i < length st"
  shows "strict_prefix (chain st ! i) (chain st ! Suc i)"
proof -
  have "take (Suc (Suc i)) st = take (Suc i) st @ [st ! Suc i]"
    using assms by (simp add: take_Suc_conv_app_nth)
  then have "chain st ! Suc i = chain st ! i @ CHR ''/'' # st ! Suc i"
    using assms by (simp add: nth_chain)
  then show ?thesis by (simp add: strict_prefix_def)
qed

text \<open>
  What holds of the ancestor chain: for an absolute path whose normalization has
  \<open>k \<ge> 1\<close> segments, \<open>splitPaths\<close> returns \<open>k\<close> entries, the \<open>i\<close>-th being the path of the
  first \<open>i + 1\<close> segments, each a strict prefix of the next, the last being the
  normalized path.
\<close>

lemma splitPaths_segments_chain:
  assumes "rooted p" "norm_segments p \<noteq> []"
  shows "\<exists>ps. splitPaths p = Some ps
           \<and> length ps = length (norm_segments p)
           \<and> (\<forall>i<length ps. ps ! i = render (take (Suc i) (norm_segments p)))
           \<and> (\<forall>i. Suc i < length ps \<longrightarrow> strict_prefix (ps ! i) (ps ! Suc i))
           \<and> last ps = path_Clean p"
proof -
  let ?ps = "chain (norm_segments p)"
  have "p \<noteq> ''/''" using assms(2) by (auto simp: norm_segments_def)
  then have 1: "splitPaths p = Some ?ps"
    using splitPaths_rooted [OF assms(1)] assms(2) by simp
  have 2: "length ?ps = length (norm_segments p)" by (rule length_chain)
  have 3: "\<forall>i<length ?ps. ?ps ! i = render (take (Suc i) (norm_segments p))"
    by (simp add: length_chain nth_chain)
  have 4: "\<forall>i. Suc i < length ?ps \<longrightarrow> strict_prefix (?ps ! i) (?ps ! Suc i)"
    using chain_strict_prefix [of _ "norm_segments p"] by (simp only: length_chain) blast
  have 5: "last ?ps = path_Clean p"
    using last_chain [OF assms(2)] path_Clean_rooted [OF assms(1)] assms(2)
    by (simp add: rootbuf_def)
  show ?thesis using 1 2 3 4 5 by blast
qed

lemma splitPaths_frontend:
  "splitPaths ''/aurora/www/prod/frontend''
     = Some [''/aurora'', ''/aurora/www'', ''/aurora/www/prod'', ''/aurora/www/prod/frontend'']"
  using splitPaths_rooted [of "''/aurora/www/prod/frontend''"]
  by (simp add: rooted_def norm_segments_def chain_def render_def)

text \<open>
  C1 (for an absolute path with \<open>k\<close> segments \<open>splitPaths\<close> returns \<open>k\<close> entries, root
  first, each a strict prefix of the next, the last being the normalized path) fails
  where the path is not \<open>/\<close> itself but normalizes to it: the first loop tests \<open>fullPath != "/"\<close> before \<open>path.Clean\<close> has been applied. The path
  \<open>//\<close> is absolute, has only redundant separators and no segment, and normalizes to
  \<open>/\<close>; \<open>splitPaths\<close> returns the one entry \<open>/\<close> for it and not the empty sequence. Such
  a path reaches \<open>splitPaths\<close> through \<open>New\<close> and \<open>directoryPath\<close>, for instance with the
  role \<open>..\<close> and empty environment and service. (For every absolute path that normalizes
  to at least one segment the claim holds: \<open>splitPaths_segments_chain\<close>.)
\<close>

theorem splitPaths_redundant_root:
  "rooted ''//'' \<and> norm_segments ''//'' = [] \<and> path_Clean ''//'' = ''/''
   \<and> splitPaths ''//'' = Some [''/'']
   \<and> (\<exists>ss. New package_init ''..'' [] [] z = Inr ss
          \<and> directoryPath package_init ss = ''/aurora/..//''
          \<and> splitPaths (directoryPath package_init ss) = Some [''/''])"
proof -
  have 1: "rooted ''//''" by (simp add: rooted_def)
  have 2: "norm_segments ''//'' = []" by (simp add: norm_segments_def)
  have 3: "path_Clean ''//'' = ''/''"
    using path_Clean_rooted [OF 1] 2 by (simp add: rootbuf_def)
  have 4: "splitPaths ''//'' = Some [''/'']"
    using splitPaths_rooted [OF 1] 2 by simp
  have 5: "splitPaths ''/aurora/..//'' = Some [''/'']"
    using splitPaths_rooted [of "''/aurora/..//''"]
    by (simp add: rooted_def norm_segments_def)
  have 6: "directoryPath package_init \<lparr>ZKTimeout = DefaultZKTimeout package_init, role = ''..'',
             environment = [], service = [], zkServers = z\<rparr> = ''/aurora/..//''"
    by (simp add: directoryPath_def default_BaseZnodePath_def package_init_def)
  show ?thesis using 1 2 3 4 5 6 by (simp add: New_Inr)
qed

text \<open>
  C9. \<open>splitPaths\<close> returns for every path that begins with a slash and for no other
  path. For an absolute path other than \<open>/\<close> the next value of \<open>fullPath\<close> is again
  absolute and strictly shorter, which is the measure of the first loop; for a path that
  does not begin with a slash no later value of \<open>fullPath\<close> does either, so the loop
  test never fails.
\<close>

theorem splitPaths_terminates:
  "(rooted p \<longrightarrow> (\<exists>ps. splitPaths p = Some ps))
   \<and> (\<not> rooted p \<longrightarrow> splitPaths p = None)
   \<and> (rooted p \<and> p \<noteq> ''/'' \<longrightarrow>
        rooted (fst (path_Split (path_Clean p)))
        \<and> length (fst (path_Split (path_Clean p))) < length p)"
  using splitPaths_rooted [of p] splitPaths_unrooted [of p] splitPaths_measure [of p]
  by simp

theorem splitPaths_terminates_witness:
  "rooted ''/a/b'' \<and> ''/a/b'' \<noteq> ''/'' \<and> (\<exists>ps. splitPaths ''/a/b'' = Some ps)
   \<and> length (fst (path_Split (path_Clean ''/a/b''))) < length ''/a/b''
   \<and> \<not> rooted ''a/b'' \<and> splitPaths ''a/b'' = None"
  using splitPaths_terminates [of "''/a/b''"] splitPaths_terminates [of "''a/b''"]
  by (simp add: rooted_def)

text \<open>
  C2 (an ancestor that is absent makes \<open>checkExistsFullPath\<close> return an error even if
  the check itself gave none) fails: when \<open>Exists\<close> answers that a node is absent and gives no error,
  \<open>checkExistsFullPath\<close> returns that error, which is \<open>nil\<close>. Here the three ancestors
  of \<open>/aurora/www/prod/frontend\<close> exist and the node itself was never created; the
  result is \<open>nil\<close>, the same as when every node exists.
\<close>

theorem checkExistsFullPath_absent_nil:
  "\<exists>ss. New package_init ''www'' ''prod'' ''frontend'' z = Inr ss
      \<and> tree_Exists ''/aurora/www/prod/frontend'' [''/aurora'', ''/aurora/www'', ''/aurora/www/prod'']
          = ((False, None), [''/aurora'', ''/aurora/www'', ''/aurora/www/prod''])
      \<and> checkExistsFullPath package_init tree_Exists ss
            [''/aurora'', ''/aurora/www'', ''/aurora/www/prod'']
          = Some (None, [''/aurora'', ''/aurora/www'', ''/aurora/www/prod''])"
proof -
  note sp = splitPaths_frontend
  have dp: "directoryPath package_init \<lparr>ZKTimeout = DefaultZKTimeout package_init, role = ''www'',
             environment = ''prod'', service = ''frontend'', zkServers = z\<rparr> = ''/aurora/www/prod/frontend''"
    by (simp add: directoryPath_def default_BaseZnodePath_def package_init_def)
  show ?thesis
    by (simp add: New_Inr checkExistsFullPath_def dp sp tree_Exists_def)
qed

section \<open>createFullPath\<close>

lemma run_creates_Cons:
  "run_creates create (key # keys) c
     = run_creates create keys (snd (create key [] 0 (WorldACL PermAll) c))"
  by (simp add: run_creates_def)

lemma create_err_0:
  "create_err create (key # keys) c 0 = snd (fst (create key [] 0 (WorldACL PermAll) c))"
  by (simp add: create_err_def run_creates_def)

lemma create_err_Suc:
  "create_err create (key # keys) c (Suc i)
     = create_err create keys (snd (create key [] 0 (WorldACL PermAll) c)) i"
  by (simp add: create_err_def run_creates_def)

lemma createFullPath_loop_all_tolerated:
  "\<forall>i<length keys. tolerated (create_err create keys c i) \<Longrightarrow>
   createFullPath_loop create keys c = (None, run_creates create keys c)"
proof (induction keys arbitrary: c)
  case Nil
  then show ?case by (simp add: run_creates_def)
next
  case (Cons key keys)
  obtain p err c' where cr: "create key [] 0 (WorldACL PermAll) c = ((p, err), c')"
    by (metis surj_pair)
  have "tolerated (create_err create (key # keys) c 0)"
    using Cons.prems by simp
  then have tol: "\<not> (err \<noteq> None \<and> err \<noteq> Some ErrNodeExists)"
    by (simp add: create_err_0 cr tolerated_def)
  have "\<forall>i<length keys. tolerated (create_err create keys c' i)"
  proof (intro allI impI)
    fix i assume "i < length keys"
    then have "tolerated (create_err create (key # keys) c (Suc i))"
      using Cons.prems by simp
    then show "tolerated (create_err create keys c' i)"
      by (simp add: create_err_Suc cr)
  qed
  from Cons.IH [OF this] tol show ?case
    by (auto simp: cr run_creates_Cons)
qed

lemma createFullPath_loop_first_error:
  "i < length keys \<Longrightarrow> \<forall>j<i. tolerated (create_err create keys c j) \<Longrightarrow>
   create_err create keys c i = Some e \<Longrightarrow> e \<noteq> ErrNodeExists \<Longrightarrow>
   createFullPath_loop create keys c = (Some e, run_creates create (take (Suc i) keys) c)"
proof (induction keys arbitrary: c i)
  case Nil
  then show ?case by simp
next
  case (Cons key keys)
  obtain p err c' where cr: "create key [] 0 (WorldACL PermAll) c = ((p, err), c')"
    by (metis surj_pair)
  show ?case
  proof (cases i)
    case 0
    then have "err = Some e" using Cons.prems(3) by (simp add: create_err_0 cr)
    then show ?thesis using Cons.prems(4) 0 by (simp add: cr run_creates_def)
  next
    case (Suc i')
    have "tolerated (create_err create (key # keys) c 0)"
      using Cons.prems(2) Suc by simp
    then have tol: "\<not> (err \<noteq> None \<and> err \<noteq> Some ErrNodeExists)"
      by (simp add: create_err_0 cr tolerated_def)
    have a: "i' < length keys" using Cons.prems(1) Suc by simp
    have b: "\<forall>j<i'. tolerated (create_err create keys c' j)"
    proof (intro allI impI)
      fix j assume "j < i'"
      then have "tolerated (create_err create (key # keys) c (Suc j))"
        using Cons.prems(2) Suc by simp
      then show "tolerated (create_err create keys c' j)"
        by (simp add: create_err_Suc cr)
    qed
    have c: "create_err create keys c' i' = Some e"
      using Cons.prems(3) Suc by (simp add: create_err_Suc cr)
    from Cons.IH [OF a b c Cons.prems(4)] tol show ?thesis
      by (auto simp: cr run_creates_Cons Suc)
  qed
qed

text \<open>
  C3. Let \<open>keys\<close> be the ancestor chain. If every \<open>Create\<close> along the chain returns
  no error or \<open>ErrNodeExists\<close>, \<open>createFullPath\<close> returns \<open>nil\<close> after calling \<open>Create\<close>
  for every key. If the \<open>i\<close>-th call is the first to return another error, that error is
  returned, and the connection is as the calls for the first \<open>i + 1\<close> keys left it:
  no later key was tried and nothing that the earlier calls created was undone.
\<close>

theorem createFullPath_outcomes:
  assumes "splitPaths (directoryPath g ss) = Some keys"
  shows "((\<forall>i<length keys. tolerated (create_err create keys c i)) \<longrightarrow>
            createFullPath g create ss c = Some (None, run_creates create keys c))
         \<and> (\<forall>i<length keys. \<forall>e.
              (\<forall>j<i. tolerated (create_err create keys c j))
              \<and> create_err create keys c i = Some e \<and> e \<noteq> ErrNodeExists \<longrightarrow>
              createFullPath g create ss c
                = Some (Some e, run_creates create (take (Suc i) keys) c))"
  using assms createFullPath_loop_all_tolerated [of keys create c]
    createFullPath_loop_first_error [of _ keys create c]
  by (simp add: createFullPath_def)

theorem createFullPath_outcomes_witness:
  "splitPaths (directoryPath package_init
       \<lparr>ZKTimeout = 5 * time_Second, role = ''www'', environment = ''prod'',
        service = ''frontend'', zkServers = []\<rparr>)
     = Some [''/aurora'', ''/aurora/www'', ''/aurora/www/prod'', ''/aurora/www/prod/frontend'']
   \<and> createFullPath package_init (tree_Create (\<lambda>key. None))
       \<lparr>ZKTimeout = 5 * time_Second, role = ''www'', environment = ''prod'',
        service = ''frontend'', zkServers = []\<rparr> [''/aurora'']
     = Some (None, [''/aurora'', ''/aurora/www'', ''/aurora/www/prod'', ''/aurora/www/prod/frontend''])
   \<and> createFullPath package_init
       (tree_Create (\<lambda>key. if key = ''/aurora/www/prod'' then Some ErrNoAuth else None))
       \<lparr>ZKTimeout = 5 * time_Second, role = ''www'', environment = ''prod'',
        service = ''frontend'', zkServers = []\<rparr> [''/aurora'']
     = Some (Some ErrNoAuth, [''/aurora'', ''/aurora/www''])"
proof -
  let ?ss = "\<lparr>ZKTimeout = 5 * time_Second, role = ''www'', environment = ''prod'',
              service = ''frontend'', zkServers = []\<rparr>"
  let ?keys = "[''/aurora'', ''/aurora/www'', ''/aurora/www/prod'', ''/aurora/www/prod/frontend'']"
  let ?ok = "tree_Create (\<lambda>key. None)"
  let ?bad = "tree_Create (\<lambda>key. if key = ''/aurora/www/prod'' then Some ErrNoAuth else None)"
  have dp: "directoryPath package_init ?ss = ''/aurora/www/prod/frontend''"
    by (simp add: directoryPath_def default_BaseZnodePath_def package_init_def)
  have keys: "splitPaths (directoryPath package_init ?ss) = Some ?keys"
    by (simp only: dp splitPaths_frontend)
  note thm_ok = createFullPath_outcomes [OF keys, of ?ok "[''/aurora'']"]
  note thm_bad = createFullPath_outcomes [OF keys, of ?bad "[''/aurora'']"]
  have ok_all: "\<forall>i<length ?keys. tolerated (create_err ?ok ?keys [''/aurora''] i)"
  proof (intro allI impI)
    fix i assume "i < length ?keys"
    then consider "i = 0" | "i = 1" | "i = 2" | "i = 3" by fastforce
    then show "tolerated (create_err ?ok ?keys [''/aurora''] i)"
      by cases (simp_all add: create_err_def run_creates_def tree_Create_def tolerated_def)
  qed
  have run_ok: "run_creates ?ok ?keys [''/aurora''] = ?keys"
    by (simp add: run_creates_def tree_Create_def)
  have bad_before: "\<forall>j<2. tolerated (create_err ?bad ?keys [''/aurora''] j)"
  proof (intro allI impI)
    fix j :: nat assume "j < 2"
    then consider "j = 0" | "j = 1" by fastforce
    then show "tolerated (create_err ?bad ?keys [''/aurora''] j)"
      by cases (simp_all add: create_err_def run_creates_def tree_Create_def tolerated_def)
  qed
  have bad_at: "create_err ?bad ?keys [''/aurora''] 2 = Some ErrNoAuth"
    by (simp add: create_err_def run_creates_def tree_Create_def numeral_2_eq_2)
  have run_bad: "run_creates ?bad (take (Suc 2) ?keys) [''/aurora''] = [''/aurora'', ''/aurora/www'']"
    by (simp add: run_creates_def tree_Create_def numeral_3_eq_3 numeral_2_eq_2)
  have r1: "createFullPath package_init ?ok ?ss [''/aurora''] = Some (None, ?keys)"
    using thm_ok ok_all run_ok by simp
  have "2 < length ?keys" by simp
  with thm_bad bad_before bad_at
  have "createFullPath package_init ?bad ?ss [''/aurora'']
          = Some (Some ErrNoAuth, run_creates ?bad (take (Suc 2) ?keys) [''/aurora''])"
    by blast
  then have r2: "createFullPath package_init ?bad ?ss [''/aurora'']
                   = Some (Some ErrNoAuth, [''/aurora'', ''/aurora/www''])"
    by (simp only: run_bad)
  show ?thesis by (intro conjI keys r1 r2)
qed

section \<open>Slashes in the role and the environment\<close>












end
